theory Spec2Isabelle
  imports Complex_Main "HOL-Library.Multiset" "HOL-Library.Log_Nat"
begin

section \<open>Cards\<close>

text \<open>
  The module \<^verbatim>\<open>cards.js\<close> holds three classes (\<^verbatim>\<open>Card\<close>, \<^verbatim>\<open>Deck\<close>, \<^verbatim>\<open>Shoe\<close>)
  and four free functions over hands. JavaScript exceptions are values of \<open>js_error\<close>:
  \<open>Error msg\<close> is \<^verbatim>\<open>throw new Error(msg)\<close>, \<open>TypeError\<close> is the exception of calling a
  method that a value does not have.
\<close>

datatype js_error = Error string | TypeError

text \<open>
  The \<^verbatim>\<open>value\<close> field of a card is either a number or an array of numbers
  (\<^verbatim>\<open>Array.isArray(value)\<close> tells them apart). All numbers stored by the module
  are integers.
\<close>

datatype card_value = Num int | Arr "int list"

record Card =
  suit :: string
  rank :: string
  cvalue :: card_value
  image_name :: string

text \<open>
  \<^verbatim>\<open>s[0]\<close> on a string is its first character, or \<^verbatim>\<open>undefined\<close> (here \<open>None\<close>) on the
  empty string. \<^verbatim>\<open>a + b\<close> on two such values concatenates, printing \<^verbatim>\<open>undefined\<close> by
  name, unless both are \<^verbatim>\<open>undefined\<close>: then the sum is the number \<^verbatim>\<open>NaN\<close>, which has
  no \<^verbatim>\<open>toUpperCase\<close>, and the constructor throws a \<^verbatim>\<open>TypeError\<close>.
  \<open>toUpperCase\<close> is the ASCII one (a \<open>string\<close> is a list of bytes).
\<close>

definition char0 :: "string \<Rightarrow> string option" where
  "char0 s = (case s of [] \<Rightarrow> None | c # _ \<Rightarrow> Some [c])"

definition js_string :: "string option \<Rightarrow> string" where
  "js_string v = (case v of None \<Rightarrow> ''undefined'' | Some s \<Rightarrow> s)"

definition toUpperCase_char :: "char \<Rightarrow> char" where
  "toUpperCase_char c =
     (case map_of (zip ''abcdefghijklmnopqrstuvwxyz'' ''ABCDEFGHIJKLMNOPQRSTUVWXYZ'') c of
        None \<Rightarrow> c
      | Some u \<Rightarrow> u)"

definition toUpperCase :: "string \<Rightarrow> string" where
  "toUpperCase s = map toUpperCase_char s"

definition new_Card :: "string \<Rightarrow> string \<Rightarrow> card_value \<Rightarrow> js_error + Card" where
  "new_Card suit' rank' value' =
     (case (char0 rank', char0 suit') of
        (None, None) \<Rightarrow> Inl TypeError
      | (r, s) \<Rightarrow>
          Inr \<lparr>suit = suit', rank = rank', cvalue = value',
               image_name = toUpperCase (js_string r @ js_string s) @ ''.png''\<rparr>)"

section \<open>Deck\<close>

record Deck =
  cards :: "Card list"

definition new_Deck :: Deck where
  "new_Deck = \<lparr>Deck.cards = []\<rparr>"

text \<open>The three tables of \<^verbatim>\<open>createDeck\<close>; the comment there reads
  ``ace can be 1 or 11 (1+10), face cards all worth 10''.\<close>

definition suits :: "string list" where
  "suits = [''clubs'', ''diamonds'', ''hearts'', ''spades'']"

definition ranks :: "string list" where
  "ranks = [''ace'', ''2'', ''3'', ''4'', ''5''] @ [''6'', ''7'', ''8'', ''9'', ''10''] @
           [''jack'', ''queen'', ''king'']"

definition values' :: "card_value list" where
  "values' = [Arr [1, 10], Num 2, Num 3, Num 4, Num 5, Num 6, Num 7, Num 8, Num 9, Num 10,
              Num 10, Num 10, Num 10]"

text \<open>
  \<^verbatim>\<open>this.cards.push(new Card(suits[i], ranks[j], values[j]))\<close>, inside the loop over
  \<open>j\<close> from 0 below \<^verbatim>\<open>ranks.length\<close>, inside the loop over \<open>i\<close> from 0 below
  \<^verbatim>\<open>suits.length\<close>. An exception of the constructor ends both loops.
\<close>

definition push_Card :: "string \<Rightarrow> string \<Rightarrow> card_value \<Rightarrow> Deck \<Rightarrow> js_error + Deck" where
  "push_Card s r v d =
     (case new_Card s r v of
        Inl e \<Rightarrow> Inl e
      | Inr c \<Rightarrow> Inr (d\<lparr>Deck.cards := Deck.cards d @ [c]\<rparr>))"

fun createDeck_ranks :: "nat \<Rightarrow> nat list \<Rightarrow> Deck \<Rightarrow> js_error + Deck" where
  "createDeck_ranks i [] d = Inr d"
| "createDeck_ranks i (j # js) d =
     (case push_Card (suits ! i) (ranks ! j) (values' ! j) d of
        Inl e \<Rightarrow> Inl e
      | Inr d' \<Rightarrow> createDeck_ranks i js d')"

fun createDeck_suits :: "nat list \<Rightarrow> Deck \<Rightarrow> js_error + Deck" where
  "createDeck_suits [] d = Inr d"
| "createDeck_suits (i # is) d =
     (case createDeck_ranks i [0..<length ranks] d of
        Inl e \<Rightarrow> Inl e
      | Inr d' \<Rightarrow> createDeck_suits is d')"

definition createDeck :: "Deck \<Rightarrow> js_error + Deck" where
  "createDeck d = createDeck_suits [0..<length suits] d"

text \<open>The cards that \<^verbatim>\<open>createDeck\<close> builds on a new deck.\<close>

definition built_cards :: "Card list" where
  "built_cards = (case createDeck new_Deck of Inl e \<Rightarrow> [] | Inr d \<Rightarrow> Deck.cards d)"

text \<open>
  \<^verbatim>\<open>Math.random()\<close> returns a number \<open>r\<close> with \<open>0 \<le> r < 1\<close>; the type \<open>unit_interval\<close>
  holds these. The random source is the sequence of its results, and the state of the
  generator is the number \<open>k\<close> of results already drawn. The index
  \<^verbatim>\<open>Math.floor(Math.random() * (i + 1))\<close> is computed in exact arithmetic.
\<close>

typedef unit_interval = "{r :: rat. 0 \<le> r \<and> r < 1}"
  by (rule exI [of _ 0]) simp

type_synonym random_source = "nat \<Rightarrow> unit_interval"

definition random_index :: "unit_interval \<Rightarrow> int \<Rightarrow> nat" where
  "random_index r i = nat \<lfloor>Rep_unit_interval r * (of_int i + 1)\<rfloor>"

text \<open>
  \<^verbatim>\<open>for (i = this.cards.length - 1; i > 0; i -= 1)\<close>: the counter is an integer, -1 on
  an empty deck. The body swaps the cards at \<open>i\<close> and \<open>j\<close> through \<open>temp\<close>.
\<close>

function shuffle_loop :: "random_source \<Rightarrow> int \<Rightarrow> nat \<Rightarrow> Card list \<Rightarrow> Card list \<times> nat" where
  "shuffle_loop rnd i k cs =
     (if i > 0
      then (let j = random_index (rnd k) i;
                temp = cs ! nat i;
                cs1 = cs[nat i := cs ! j];
                cs2 = cs1[j := temp]
            in shuffle_loop rnd (i - 1) (k + 1) cs2)
      else (cs, k))"
  by pat_completeness auto
termination
  by (relation "measure (\<lambda>(rnd, i, k, cs). nat i)") auto

declare shuffle_loop.simps [simp del]

definition shuffleDeck :: "random_source \<Rightarrow> nat \<Rightarrow> Deck \<Rightarrow> Deck \<times> nat" where
  "shuffleDeck rnd k d =
     (let (cs, k') = shuffle_loop rnd (int (length (Deck.cards d)) - 1) k (Deck.cards d)
      in (d\<lparr>Deck.cards := cs\<rparr>, k'))"

section \<open>Shoe\<close>

text \<open>
  The constructor \<^verbatim>\<open>Shoe(numDecks, cutoff=0.75)\<close>: an argument left out is \<open>None\<close>.
  The number of decks is an integer. The cutoff is a fraction that \<open>createShoe\<close> and
  \<open>deal\<close> only carry along; \<^verbatim>\<open>pastCutoff\<close> compares with it.
\<close>

record Shoe =
  cards :: "Card list"
  numDecks :: int
  cutoff :: rat

definition new_Shoe :: "int \<Rightarrow> rat option \<Rightarrow> Shoe" where
  "new_Shoe numDecks' cutoff' =
     \<lparr>Shoe.cards = [], numDecks = numDecks',
      cutoff = (case cutoff' of None \<Rightarrow> 3 / 4 | Some c \<Rightarrow> c)\<rparr>"

definition addShuffledDeck :: "random_source \<Rightarrow> nat \<Rightarrow> Shoe \<Rightarrow> js_error + Shoe \<times> nat" where
  "addShuffledDeck rnd k s =
     (case createDeck new_Deck of
        Inl e \<Rightarrow> Inl e
      | Inr deck \<Rightarrow>
          (let (deck', k') = shuffleDeck rnd k deck
           in Inr (s\<lparr>Shoe.cards := Shoe.cards s @ Deck.cards deck'\<rparr>, k')))"

text \<open>\<^verbatim>\<open>for (let i = 0; i < this.numDecks; i++) this.addShuffledDeck()\<close>: the bound is
  read from the shoe in every round.\<close>

function createShoe_loop :: "random_source \<Rightarrow> int \<Rightarrow> nat \<Rightarrow> Shoe \<Rightarrow> js_error + Shoe \<times> nat" where
  "createShoe_loop rnd i k s =
     (if i < numDecks s
      then (case addShuffledDeck rnd k s of
              Inl e \<Rightarrow> Inl e
            | Inr (s', k') \<Rightarrow> createShoe_loop rnd (i + 1) k' s')
      else Inr (s, k))"
  by pat_completeness auto
termination
proof (relation "measure (\<lambda>(rnd, i, k, s). nat (numDecks s - i))")
  fix rnd :: random_source and i :: int and k :: nat and s s' :: Shoe and x k'
  assume "i < numDecks s" and "addShuffledDeck rnd k s = Inr x" and "(s', k') = x"
  then have "numDecks s' = numDecks s"
    by (auto simp: addShuffledDeck_def split: sum.splits prod.splits)
  with \<open>i < numDecks s\<close>
  show "((rnd, i + 1, k', s'), (rnd, i, k, s)) \<in> measure (\<lambda>(rnd, i, k, s). nat (numDecks s - i))"
    by simp
qed simp

declare createShoe_loop.simps [simp del]

definition createShoe :: "random_source \<Rightarrow> nat \<Rightarrow> Shoe \<Rightarrow> js_error + Shoe \<times> nat" where
  "createShoe rnd k s = createShoe_loop rnd 0 k s"

text \<open>
  \<^verbatim>\<open>deal(num=1)\<close> returns one card or an array of cards, or throws. \<^verbatim>\<open>shift()\<close> removes
  the first element of an array and returns it, and returns \<^verbatim>\<open>undefined\<close> (here \<open>None\<close>)
  on an empty array. The result of \<open>deal\<close> is what the call returned or threw, with the
  shoe after the call. The loop \<^verbatim>\<open>for (let i = 0; i < num; i++)\<close> makes \<open>nat num\<close>
  rounds.
\<close>

datatype dealt = Single "Card option" | Several "Card option list"

definition shift :: "Card list \<Rightarrow> Card option \<times> Card list" where
  "shift cs = (case cs of [] \<Rightarrow> (None, []) | c # rest \<Rightarrow> (Some c, rest))"

fun deal_loop :: "nat \<Rightarrow> Card option list \<Rightarrow> Shoe \<Rightarrow> Card option list \<times> Shoe" where
  "deal_loop 0 acc s = (acc, s)"
| "deal_loop (Suc n) acc s =
     (let (c, rest) = shift (Shoe.cards s)
      in deal_loop n (acc @ [c]) (s\<lparr>Shoe.cards := rest\<rparr>))"

definition deal :: "int option \<Rightarrow> Shoe \<Rightarrow> (js_error + dealt) \<times> Shoe" where
  "deal arg s =
     (let num = (case arg of None \<Rightarrow> 1 | Some n \<Rightarrow> n)
      in if int (length (Shoe.cards s)) < num
         then (Inl (Error ''Not enough cards to deal!''), s)
         else if num = 1
         then (let (c, rest) = shift (Shoe.cards s)
               in (Inr (Single c), s\<lparr>Shoe.cards := rest\<rparr>))
         else (let (acc, s') = deal_loop (nat num) [] s in (Inr (Several acc), s')))"

section \<open>The cutoff test\<close>

text \<open>
  A JavaScript number is a binary64 value: a rational with a significand of 53 bits, one
  of the two infinities, or \<^verbatim>\<open>NaN\<close>. The two zeros are one value here: \<^verbatim>\<open>pastCutoff\<close>
  only compares its result, and the one zero it divides by is the product \<^verbatim>\<open>0 * 52\<close>,
  the positive zero.
\<close>

datatype js_number = Finite rat | PosInfinity | NegInfinity | NaN

text \<open>
  \<open>binary_exponent a\<close> is, for \<open>a > 0\<close>, the \<open>e\<close> with \<open>2\<^sup>e \<le> a < 2\<^sup>e\<^sup>+\<^sup>1\<close>: with \<open>a = p / q\<close> in
  lowest terms it is the difference of the two bit lengths, or one less.
\<close>

definition pow2 :: "int \<Rightarrow> rat" where
  "pow2 e = (if 0 \<le> e then 2 ^ nat e else 1 / 2 ^ nat (- e))"

definition binary_exponent :: "rat \<Rightarrow> int" where
  "binary_exponent a =
     (let (p, q) = quotient_of a; d = bitlen p - bitlen q
      in if pow2 d \<le> a then d else d - 1)"

text \<open>Rounding to the nearest integer, a tie to the even one.\<close>

definition round_half_even :: "rat \<Rightarrow> int" where
  "round_half_even x =
     (let f = \<lfloor>x\<rfloor>; r = x - of_int f
      in if r < 1 / 2 then f else if 1 / 2 < r then f + 1 else if even f then f else f + 1)"

text \<open>
  The binary64 value of an exact result: the nearest multiple of the spacing
  \<open>2\<^sup>e\<^sup>-\<^sup>5\<^sup>2\<close> at the exponent \<open>e\<close> of \<open>x\<close> (of \<open>2\<^sup>-\<^sup>1\<^sup>0\<^sup>7\<^sup>4\<close> below \<open>2\<^sup>-\<^sup>1\<^sup>0\<^sup>2\<^sup>2\<close>, the subnormal
  range), ties to the even significand. The result overflows to an infinity when the
  rounded magnitude reaches \<open>2\<^sup>1\<^sup>0\<^sup>2\<^sup>4\<close>: when \<open>e\<close> is 1024 or more, or \<open>e\<close> is 1023 and the
  significand rounds up to \<open>2\<^sup>5\<^sup>3\<close>.
\<close>

definition binary64 :: "rat \<Rightarrow> js_number" where
  "binary64 x =
     (if x = 0 then Finite 0
      else (let e = binary_exponent \<bar>x\<bar>;
                q = pow2 (max e (- 1022) - 52);
                n = round_half_even (x / q)
            in if 1024 \<le> e \<or> (e = 1023 \<and> \<bar>n\<bar> = 2 ^ 53)
               then (if 0 < x then PosInfinity else NegInfinity)
               else Finite (of_int n * q)))"

text \<open>
  \<^verbatim>\<open>x * y\<close>, \<^verbatim>\<open>x / y\<close>, \<^verbatim>\<open>Math.floor(x)\<close> and \<^verbatim>\<open>x < c\<close> on these values. \<^verbatim>\<open>NaN\<close> gives
  \<^verbatim>\<open>NaN\<close>, and \<open>false\<close> in a comparison; a product of zero and an infinity, a quotient of
  two infinities and \<^verbatim>\<open>0 / 0\<close> are \<^verbatim>\<open>NaN\<close>; another number divided by zero is an infinity.
  The floor of a binary64 value is a binary64 value.
\<close>

definition js_sign :: "js_number \<Rightarrow> int" where
  "js_sign x =
     (case x of Finite a \<Rightarrow> (if 0 < a then 1 else if a < 0 then - 1 else 0)
      | PosInfinity \<Rightarrow> 1 | NegInfinity \<Rightarrow> - 1 | NaN \<Rightarrow> 0)"

definition js_infinity :: "int \<Rightarrow> js_number" where
  "js_infinity sg = (if sg = 0 then NaN else if 0 < sg then PosInfinity else NegInfinity)"

definition js_times :: "js_number \<Rightarrow> js_number \<Rightarrow> js_number" where
  "js_times x y =
     (case (x, y) of
        (NaN, _) \<Rightarrow> NaN
      | (_, NaN) \<Rightarrow> NaN
      | (Finite a, Finite b) \<Rightarrow> binary64 (a * b)
      | _ \<Rightarrow> js_infinity (js_sign x * js_sign y))"

definition js_divide :: "js_number \<Rightarrow> js_number \<Rightarrow> js_number" where
  "js_divide x y =
     (case (x, y) of
        (NaN, _) \<Rightarrow> NaN
      | (_, NaN) \<Rightarrow> NaN
      | (Finite a, Finite b) \<Rightarrow> if b = 0 then js_infinity (js_sign x) else binary64 (a / b)
      | (Finite a, _) \<Rightarrow> Finite 0
      | (_, Finite b) \<Rightarrow> js_infinity (js_sign x * (if b < 0 then - 1 else 1))
      | _ \<Rightarrow> NaN)"

definition js_floor :: "js_number \<Rightarrow> js_number" where
  "js_floor x = (case x of Finite a \<Rightarrow> Finite (of_int \<lfloor>a\<rfloor>) | _ \<Rightarrow> x)"

definition js_less :: "js_number \<Rightarrow> rat \<Rightarrow> bool" where
  "js_less x c =
     (case x of Finite a \<Rightarrow> a < c | NegInfinity \<Rightarrow> True | PosInfinity \<Rightarrow> False | NaN \<Rightarrow> False)"

text \<open>
  The percentage of the cards that remain, as the formula
  \<^verbatim>\<open>floor((cards.length / (numDecks*52)) * 100)\<close> reads, every operation on binary64 values.
\<close>

definition percentRemaining :: "Shoe \<Rightarrow> js_number" where
  "percentRemaining s =
     js_floor (js_times
       (js_divide (Finite (of_nat (length (Shoe.cards s))))
          (js_times (Finite (of_int (numDecks s))) (Finite 52)))
       (Finite 100))"

text \<open>
  \<^verbatim>\<open>pastCutoff()\<close>: its three locals, and the comparison it returns, with the shoe
  after the call. The number of decks, the length and the cutoff enter as the numbers
  the shoe holds; every product and quotient is rounded.
\<close>

definition pastCutoff :: "Shoe \<Rightarrow> bool \<times> Shoe" where
  "pastCutoff s =
     (let numCards = js_times (Finite (of_int (numDecks s))) (Finite 52);
          remainingCards = Finite (of_nat (length (Shoe.cards s)));
          percentRemaining = js_floor (js_times (js_divide remainingCards numCards) (Finite 100))
      in (js_less percentRemaining (cutoff s), s))"

section \<open>Hand evaluation\<close>

text \<open>
  \<^verbatim>\<open>evalHand\<close> receives the caller's array by reference, so the evaluators return the
  hand as it is after the call next to their result. The two \<^verbatim>\<open>reduce\<close> calls are left
  folds from 0; \<^verbatim>\<open>console.log\<close> writes nothing the module reads and is left out.
\<close>

definition count_aces :: "Card list \<Rightarrow> int" where
  "count_aces hand' = foldl (\<lambda>total c. if rank c = ''ace'' then total + 1 else total) 0 hand'"

definition raw_score :: "Card list \<Rightarrow> int" where
  "raw_score hand' =
     foldl (\<lambda>total c.
        case cvalue c of
          Arr vs \<Rightarrow> total + foldl (\<lambda>acc curr. acc + curr) 0 vs
        | Num v \<Rightarrow> total + v) 0 hand'"

record eval_frame =
  hand :: "Card list"
  numAces :: int
  score :: int

text \<open>
  The loop \<^verbatim>\<open>while (score > 21 && numAces) { score -= 10; numAces--; }\<close>: a number is
  truthy when it is not 0. The score falls by 10 in every round, so the loop ends.
\<close>

function adjust_aces :: "eval_frame \<Rightarrow> eval_frame" where
  "adjust_aces f =
     (if score f > 21 \<and> numAces f \<noteq> 0
      then adjust_aces (f\<lparr>score := score f - 10, numAces := numAces f - 1\<rparr>)
      else f)"
  by pat_completeness auto
termination
  by (relation "measure (\<lambda>f. nat (score f - 21))") auto

declare adjust_aces.simps [simp del]

definition evalHand :: "Card list \<Rightarrow> int \<times> Card list" where
  "evalHand h =
     (let f = adjust_aces \<lparr>hand = h, numAces = count_aces h, score = raw_score h\<rparr>
      in (score f, hand f))"

definition scoreHand :: "Card list \<Rightarrow> int \<times> Card list" where
  "scoreHand h = (let (value', h') = evalHand h in (value', h'))"

definition isBust :: "Card list \<Rightarrow> bool \<times> Card list" where
  "isBust h = (let (value', h') = evalHand h in (value' > 21, h'))"

definition belowHard17 :: "Card list \<Rightarrow> bool \<times> Card list" where
  "belowHard17 h = (let (value', h') = evalHand h in (value' < 17, h'))"

section \<open>The deck layout\<close>

text \<open>
  The layout of a built deck as a list of (suit, rank, value) triples: suit-major,
  rank-minor, the suits in the order clubs, diamonds, hearts, spades, the ranks from ace
  to king, every rank with its value. The value of the ace is the parameter.
\<close>

definition card_triple :: "Card \<Rightarrow> string \<times> string \<times> card_value" where
  "card_triple c = (suit c, rank c, cvalue c)"

definition deck_layout :: "card_value \<Rightarrow> (string \<times> string \<times> card_value) list" where
  "deck_layout ace_value =
     [(s, r, v).
        s \<leftarrow> [''clubs'', ''diamonds'', ''hearts'', ''spades''],
        (r, v) \<leftarrow> [(''ace'', ace_value), (''2'', Num 2), (''3'', Num 3), (''4'', Num 4),
                   (''5'', Num 5), (''6'', Num 6), (''7'', Num 7), (''8'', Num 8), (''9'', Num 9),
                   (''10'', Num 10), (''jack'', Num 10), (''queen'', Num 10), (''king'', Num 10)]]"

section \<open>The blackjack value of a hand\<close>

text \<open>The points of the ranks other than the ace in blackjack: the number cards count
  their number, jack, queen and king count 10.\<close>

definition standard_points :: "string \<Rightarrow> int" where
  "standard_points r =
     (case map_of [(''2'', 2), (''3'', 3), (''4'', 4), (''5'', 5), (''6'', 6), (''7'', 7),
                   (''8'', 8), (''9'', 9), (''10'', 10), (''jack'', 10), (''queen'', 10),
                   (''king'', 10)] r of
        None \<Rightarrow> 0
      | Some v \<Rightarrow> v)"

text \<open>Every total a hand can be counted as, each ace counted as 1 or as 11.\<close>

fun hand_totals :: "Card list \<Rightarrow> int list" where
  "hand_totals [] = [0]"
| "hand_totals (c # cs) =
     (if rank c = ''ace''
      then map (\<lambda>t. 1 + t) (hand_totals cs) @ map (\<lambda>t. 11 + t) (hand_totals cs)
      else map (\<lambda>t. standard_points (rank c) + t) (hand_totals cs))"

text \<open>The largest total that does not exceed 21, or the smallest total when every total
  exceeds 21.\<close>

definition blackjack_value :: "Card list \<Rightarrow> int" where
  "blackjack_value h =
     (let ts = hand_totals h; ok = filter (\<lambda>t. t \<le> 21) ts
      in if ok = [] then Min (set ts) else Max (set ok))"

text \<open>The total with every ace counted as 1.\<close>

fun low_total :: "Card list \<Rightarrow> int" where
  "low_total [] = 0"
| "low_total (c # cs) = (if rank c = ''ace'' then 1 else standard_points (rank c)) + low_total cs"


section \<open>Blocks of decks\<close>

text \<open>
  A list of cards is made of \<open>n\<close> deck blocks when it splits into \<open>n\<close> consecutive
  segments of 52 cards and nothing else, every segment a permutation of the built deck.
\<close>

fun deck_blocks :: "nat \<Rightarrow> Card list \<Rightarrow> bool" where
  "deck_blocks 0 cs = (cs = [])"
| "deck_blocks (Suc n) cs =
     (mset (take 52 cs) = mset built_cards \<and> deck_blocks n (drop 52 cs))"

section \<open>Properties of the deck\<close>

lemma createDeck_new: "createDeck new_Deck = Inr \<lparr>Deck.cards = built_cards\<rparr>"
  by code_simp

lemma length_built_cards: "length built_cards = 52"
  by code_simp

lemma built_cards_layout: "map card_triple built_cards = deck_layout (Arr [1, 10])"
  by code_simp

lemma built_cards_pairs:
  "distinct (map (\<lambda>c. (suit c, rank c)) built_cards) \<and>
   set (map (\<lambda>c. (suit c, rank c)) built_cards) =
     set suits \<times> set ranks"
  by code_simp

text \<open>
  Claim C2, as amended. \<open>createDeck\<close> on a new deck returns a deck of exactly 52 cards,
  one for every (suit, rank) pair, in suit-major and rank-minor order, with the values
  2 to 10 for the number cards, 10 for jack, queen and king, and the array \<open>[1, 10]\<close> for
  the ace.
\<close>

theorem createDeck_layout:
  "\<exists>d. createDeck new_Deck = Inr d \<and>
       length (Deck.cards d) = 52 \<and>
       map card_triple (Deck.cards d) = deck_layout (Arr [1, 10]) \<and>
       distinct (map (\<lambda>c. (suit c, rank c)) (Deck.cards d)) \<and>
       set (map (\<lambda>c. (suit c, rank c)) (Deck.cards d)) =
         set suits \<times> set ranks"
  using createDeck_new length_built_cards built_cards_layout built_cards_pairs by simp

text \<open>The built deck is not the layout whose aces hold the pair \<open>[1, 11]\<close>.\<close>

theorem createDeck_ace_11_counterexample:
  "map_sum id (map card_triple \<circ> Deck.cards) (createDeck new_Deck) \<noteq> Inr (deck_layout (Arr [1, 11]))"
  by code_simp

section \<open>Properties of shuffling\<close>

text \<open>
  Three runs of the shuffle: every draw 0; the first draw 0 and the others one half; an
  empty deck, on which the loop does not run and nothing is drawn.
\<close>

lemma shuffleDeck_examples:
  "shuffleDeck (\<lambda>n. Abs_unit_interval 0) 0 \<lparr>Deck.cards = [a, b, c]\<rparr> =
     (\<lparr>Deck.cards = [b, c, a]\<rparr>, 2)"
  "shuffleDeck (\<lambda>n. Abs_unit_interval (if n = 0 then 0 else 1 / 2)) 0
       \<lparr>Deck.cards = [a, b, c]\<rparr> =
     (\<lparr>Deck.cards = [c, b, a]\<rparr>, 2)"
  "shuffleDeck rnd k \<lparr>Deck.cards = []\<rparr> = (\<lparr>Deck.cards = []\<rparr>, k)"
  by (simp_all add: shuffleDeck_def shuffle_loop.simps random_index_def
      Abs_unit_interval_inverse Let_def)

lemma random_index_le:
  assumes "0 \<le> i"
  shows "random_index r i \<le> nat i"
proof -
  have r: "0 \<le> Rep_unit_interval r" "Rep_unit_interval r < 1"
    using Rep_unit_interval [of r] by auto
  have pos: "(0::rat) < of_int i + 1" using assms by linarith
  have "Rep_unit_interval r * (of_int i + 1) < 1 * (of_int i + 1)"
    using r(2) pos by (rule mult_strict_right_mono)
  then have "Rep_unit_interval r * (of_int i + 1) < of_int (i + 1)" by simp
  then have "\<lfloor>Rep_unit_interval r * (of_int i + 1)\<rfloor> < i + 1"
    by (simp only: floor_less_iff)
  then show ?thesis unfolding random_index_def by linarith
qed

lemma shuffle_loop_mset:
  "i < int (length cs) \<Longrightarrow> mset (fst (shuffle_loop rnd i k cs)) = mset cs"
proof (induction rnd i k cs rule: shuffle_loop.induct)
  case (1 rnd i k cs)
  show ?case
  proof (cases "i > 0")
    case False
    then show ?thesis by (subst shuffle_loop.simps) simp
  next
    case True
    define j where "j = random_index (rnd k) i"
    define cs2 where "cs2 = cs[nat i := cs ! j, j := cs ! nat i]"
    have ji: "j \<le> nat i" unfolding j_def using True by (intro random_index_le) simp
    have il: "nat i < length cs" using "1.prems" True by linarith
    with ji have jl: "j < length cs" by linarith
    have m: "mset cs2 = mset cs" unfolding cs2_def using jl il by (rule mset_swap)
    then have "length cs2 = length cs" by (metis size_mset)
    with "1.prems" have "i - 1 < int (length cs2)" by simp
    from "1.IH" [OF True refl refl refl refl] this
    have "mset (fst (shuffle_loop rnd (i - 1) (k + 1) cs2)) = mset cs2"
      unfolding cs2_def j_def by simp
    with m have "mset (fst (shuffle_loop rnd (i - 1) (k + 1) cs2)) = mset cs"
      by simp
    moreover have "shuffle_loop rnd i k cs = shuffle_loop rnd (i - 1) (k + 1) cs2"
      using True by (subst shuffle_loop.simps) (simp add: Let_def cs2_def j_def)
    ultimately show ?thesis by simp
  qed
qed

lemma shuffle_loop_count:
  "snd (shuffle_loop rnd i k cs) = k + nat i"
proof (induction rnd i k cs rule: shuffle_loop.induct)
  case (1 rnd i k cs)
  show ?case
  proof (cases "i > 0")
    case False
    then show ?thesis by (subst shuffle_loop.simps) simp
  next
    case True
    define j where "j = random_index (rnd k) i"
    define cs2 where "cs2 = cs[nat i := cs ! j, j := cs ! nat i]"
    from "1.IH" [OF True refl refl refl refl]
    have "snd (shuffle_loop rnd (i - 1) (k + 1) cs2) = k + 1 + nat (i - 1)"
      unfolding cs2_def j_def by simp
    moreover have "shuffle_loop rnd i k cs = shuffle_loop rnd (i - 1) (k + 1) cs2"
      using True by (subst shuffle_loop.simps) (simp add: Let_def cs2_def j_def)
    ultimately show ?thesis using True by simp
  qed
qed

lemma shuffleDeck_mset: "mset (Deck.cards (fst (shuffleDeck rnd k d))) = mset (Deck.cards d)"
proof -
  obtain cs' k' where
    sl: "shuffle_loop rnd (int (length (Deck.cards d)) - 1) k (Deck.cards d) = (cs', k')"
    by (cases "shuffle_loop rnd (int (length (Deck.cards d)) - 1) k (Deck.cards d)")
  have "int (length (Deck.cards d)) - 1 < int (length (Deck.cards d))" by simp
  from shuffle_loop_mset [OF this, of rnd k] sl have "mset cs' = mset (Deck.cards d)"
    by simp
  then show ?thesis
    by (simp add: shuffleDeck_def sl)
qed

text \<open>
  Claim C7. Whatever the random source returns, the cards of the deck after
  \<open>shuffleDeck\<close> are a permutation of the cards before: the same multiset, so no card is
  added, lost or duplicated, and the deck keeps its length.
\<close>

theorem shuffleDeck_permutes:
  "mset (Deck.cards (fst (shuffleDeck rnd k d))) = mset (Deck.cards d) \<and>
   length (Deck.cards (fst (shuffleDeck rnd k d))) = length (Deck.cards d)"
proof -
  have m: "mset (Deck.cards (fst (shuffleDeck rnd k d))) = mset (Deck.cards d)"
    by (rule shuffleDeck_mset)
  then have "length (Deck.cards (fst (shuffleDeck rnd k d))) = length (Deck.cards d)"
    by (metis size_mset)
  with m show ?thesis by simp
qed

section \<open>Properties of the shoe\<close>

lemma mset_built_length: "mset blk = mset built_cards \<Longrightarrow> length blk = 52"
  using length_built_cards by (metis size_mset)

lemma deck_blocks_length: "deck_blocks n cs \<Longrightarrow> length cs = 52 * n"
proof (induction n arbitrary: cs)
  case 0
  then show ?case by simp
next
  case (Suc n)
  from Suc.prems have m: "mset (take 52 cs) = mset built_cards"
    and r: "deck_blocks n (drop 52 cs)" by simp_all
  from m have t: "length (take 52 cs) = 52" by (rule mset_built_length)
  from r have d: "length (drop 52 cs) = 52 * n" by (rule Suc.IH)
  have "length cs = length (take 52 cs) + length (drop 52 cs)"
    by (simp only: length_append [symmetric] append_take_drop_id)
  also have "\<dots> = 52 + 52 * n"
    by (simp only: t d)
  finally show ?case by simp
qed

lemma deck_blocks_append:
  "deck_blocks n cs \<Longrightarrow> mset blk = mset built_cards \<Longrightarrow> deck_blocks (Suc n) (cs @ blk)"
proof (induction n arbitrary: cs)
  case 0
  then show ?case by (simp add: mset_built_length)
next
  case (Suc n)
  from Suc.prems(1) have m: "mset (take 52 cs) = mset built_cards"
    and r: "deck_blocks n (drop 52 cs)" by simp_all
  from Suc.prems(1) have "length cs = 52 * Suc n" by (rule deck_blocks_length)
  then have l: "52 \<le> length cs" by simp
  from Suc.IH [OF r Suc.prems(2)] have "deck_blocks (Suc n) (drop 52 cs @ blk)" .
  with m l show ?case by simp
qed

lemma addShuffledDeck_block:
  "\<exists>blk k'. addShuffledDeck rnd k s = Inr (s\<lparr>Shoe.cards := Shoe.cards s @ blk\<rparr>, k') \<and>
     mset blk = mset built_cards"
proof -
  obtain deck' k' where sd: "shuffleDeck rnd k \<lparr>Deck.cards = built_cards\<rparr> = (deck', k')"
    by (cases "shuffleDeck rnd k \<lparr>Deck.cards = built_cards\<rparr>")
  from shuffleDeck_mset [of rnd k "\<lparr>Deck.cards = built_cards\<rparr>"] sd
  have "mset (Deck.cards deck') = mset built_cards" by simp
  moreover have "addShuffledDeck rnd k s =
      Inr (s\<lparr>Shoe.cards := Shoe.cards s @ Deck.cards deck'\<rparr>, k')"
    by (simp add: addShuffledDeck_def createDeck_new sd)
  ultimately show ?thesis by blast
qed

lemma createShoe_loop_blocks:
  "deck_blocks m (Shoe.cards s) \<Longrightarrow>
   \<exists>s' k'. createShoe_loop rnd i k s = Inr (s', k') \<and> numDecks s' = numDecks s \<and>
     cutoff s' = cutoff s \<and> deck_blocks (m + nat (numDecks s - i)) (Shoe.cards s')"
proof (induction rnd i k s arbitrary: m rule: createShoe_loop.induct)
  case (1 rnd i k s)
  show ?case
  proof (cases "i < numDecks s")
    case False
    then have "createShoe_loop rnd i k s = Inr (s, k)"
      by (subst createShoe_loop.simps) simp
    with False "1.prems" show ?thesis by simp
  next
    case True
    obtain blk k1 where
      a: "addShuffledDeck rnd k s = Inr (s\<lparr>Shoe.cards := Shoe.cards s @ blk\<rparr>, k1)"
      and b: "mset blk = mset built_cards"
      using addShuffledDeck_block by blast
    let ?s1 = "s\<lparr>Shoe.cards := Shoe.cards s @ blk\<rparr>"
    have "deck_blocks (Suc m) (Shoe.cards ?s1)"
      using "1.prems" b by (simp del: deck_blocks.simps add: deck_blocks_append)
    from "1.IH" [OF True a refl this]
    obtain s' k' where r: "createShoe_loop rnd (i + 1) k1 ?s1 = Inr (s', k')"
      and n: "numDecks s' = numDecks ?s1" and c: "cutoff s' = cutoff ?s1"
      and d: "deck_blocks (Suc m + nat (numDecks ?s1 - (i + 1))) (Shoe.cards s')"
      by blast
    have e: "Suc m + nat (numDecks ?s1 - (i + 1)) = m + nat (numDecks s - i)"
      using True by simp
    from d have d': "deck_blocks (m + nat (numDecks s - i)) (Shoe.cards s')"
      unfolding e .
    have "createShoe_loop rnd i k s = createShoe_loop rnd (i + 1) k1 ?s1"
      using True a by (subst createShoe_loop.simps) simp
    with r have "createShoe_loop rnd i k s = Inr (s', k')" by simp
    moreover from n have "numDecks s' = numDecks s" by simp
    moreover from c have "cutoff s' = cutoff s" by simp
    ultimately show ?thesis using d' by blast
  qed
qed

text \<open>
  Claim C5. For a positive number of decks \<open>n\<close> and every random source, \<open>createShoe\<close> on
  a new shoe returns, and the shoe then holds exactly \<open>52 * n\<close> cards, arranged as \<open>n\<close>
  consecutive blocks of 52 cards, each a permutation of the built deck.
\<close>

theorem createShoe_blocks:
  assumes "0 < n"
  shows "\<exists>s' k'. createShoe rnd k (new_Shoe n c) = Inr (s', k') \<and>
           length (Shoe.cards s') = 52 * nat n \<and> deck_blocks (nat n) (Shoe.cards s') \<and>
           numDecks s' = n"
proof -
  have "deck_blocks 0 (Shoe.cards (new_Shoe n c))" by (simp add: new_Shoe_def)
  from createShoe_loop_blocks [OF this, of rnd 0 k]
  obtain s' k' where r: "createShoe rnd k (new_Shoe n c) = Inr (s', k')"
    and nd: "numDecks s' = n" and d: "deck_blocks (nat n) (Shoe.cards s')"
    by (auto simp: createShoe_def new_Shoe_def simp del: deck_blocks.simps)
  from d have "length (Shoe.cards s') = 52 * nat n" by (rule deck_blocks_length)
  with r nd d show ?thesis by blast
qed

theorem createShoe_blocks_witness:
  "(0::int) < 2 \<and>
   (\<exists>s' k'. createShoe (\<lambda>_. Abs_unit_interval 0) 0 (new_Shoe 2 None) = Inr (s', k') \<and>
      length (Shoe.cards s') = 104 \<and> deck_blocks 2 (Shoe.cards s'))"
proof -
  have h: "(0::int) < 2" by simp
  from createShoe_blocks [OF h, of "\<lambda>_. Abs_unit_interval 0" 0 None]
  obtain s' k' where "createShoe (\<lambda>_. Abs_unit_interval 0) 0 (new_Shoe 2 None) = Inr (s', k')"
    and "length (Shoe.cards s') = 52 * nat 2" and "deck_blocks (nat 2) (Shoe.cards s')"
    by blast
  then have "createShoe (\<lambda>_. Abs_unit_interval 0) 0 (new_Shoe 2 None) = Inr (s', k') \<and>
      length (Shoe.cards s') = 104 \<and> deck_blocks 2 (Shoe.cards s')"
    by (simp del: deck_blocks.simps)
  with h show ?thesis by blast
qed

section \<open>Properties of the cutoff test\<close>

lemma pow2_power_int: "pow2 e = 2 powi e"
  by (simp add: pow2_def power_int_def inverse_eq_divide power_one_over)

lemma pow2_pos: "0 < pow2 e"
  by (simp add: pow2_power_int)

lemma pow2_add: "pow2 (m + n) = pow2 m * pow2 n"
  unfolding pow2_power_int by (rule power_int_add) simp

lemma pow2_bitlen:
  assumes "0 < x"
  shows "pow2 (bitlen x - 1) \<le> of_int x \<and> of_int x < pow2 (bitlen x)"
proof -
  from bitlen_bounds [OF assms]
  have l: "(2::int) ^ nat (bitlen x - 1) \<le> x" and u: "x < 2 ^ nat (bitlen x)"
    by simp_all
  have b: "1 \<le> bitlen x" using assms by (auto simp: bitlen_alt_def)
  from l have "(of_int (2 ^ nat (bitlen x - 1)) :: rat) \<le> of_int x"
    by (simp only: of_int_le_iff)
  then have L: "(2::rat) ^ nat (bitlen x - 1) \<le> of_int x" by simp
  from u have "(of_int x :: rat) < of_int (2 ^ nat (bitlen x))"
    by (simp only: of_int_less_iff)
  then have U: "(of_int x :: rat) < 2 ^ nat (bitlen x)" by simp
  from b have "pow2 (bitlen x - 1) = 2 ^ nat (bitlen x - 1)" and "pow2 (bitlen x) = 2 ^ nat (bitlen x)"
    by (simp_all add: pow2_def)
  with L U show ?thesis by simp
qed

text \<open>The exponent brackets a positive rational between two consecutive powers of 2.\<close>

lemma binary_exponent_bounds:
  assumes "0 < a"
  shows "pow2 (binary_exponent a) \<le> a \<and> a < pow2 (binary_exponent a + 1)"
proof -
  obtain p q where pq: "quotient_of a = (p, q)" by (cases "quotient_of a")
  then have q: "0 < q" by (rule quotient_of_denom_pos)
  from pq have a: "a = of_int p / of_int q" by (rule quotient_of_div)
  have qpos: "(0::rat) < of_int q" using q by simp
  have p: "0 < p"
  proof (rule ccontr)
    assume "\<not> 0 < p"
    then have "(of_int p :: rat) \<le> 0" by simp
    with qpos have "of_int p / of_int q \<le> (0::rat)" by (simp add: divide_le_0_iff)
    with assms a show False by simp
  qed
  define d where "d = bitlen p - bitlen q"
  note P = pow2_bitlen [OF p] and Q = pow2_bitlen [OF q]
  have e1: "bitlen p = (d + 1) + (bitlen q - 1)" by (simp add: d_def)
  have e2: "bitlen p - 1 = (d - 1) + bitlen q" by (simp add: d_def)
  have up: "a < pow2 (d + 1)"
  proof -
    have "of_int p < pow2 (bitlen p)" using P by (rule conjunct2)
    also have "pow2 (bitlen p) = pow2 (d + 1) * pow2 (bitlen q - 1)"
      by (subst e1) (rule pow2_add)
    also have "\<dots> \<le> pow2 (d + 1) * of_int q"
      using Q pow2_pos [of "d + 1"] by (intro mult_left_mono) simp_all
    finally have "of_int p < pow2 (d + 1) * of_int q" .
    with qpos show ?thesis unfolding a by (simp only: pos_divide_less_eq)
  qed
  have lo: "pow2 (d - 1) \<le> a"
  proof -
    have "pow2 (d - 1) * of_int q \<le> pow2 (d - 1) * pow2 (bitlen q)"
      using Q pow2_pos [of "d - 1"] by (intro mult_left_mono) simp_all
    also have "\<dots> = pow2 (bitlen p - 1)"
      by (subst e2) (rule pow2_add [symmetric])
    also have "\<dots> \<le> of_int p" using P by (rule conjunct1)
    finally have "pow2 (d - 1) * of_int q \<le> of_int p" .
    with qpos show ?thesis unfolding a by (simp only: pos_le_divide_eq)
  qed
  show ?thesis
  proof (cases "pow2 d \<le> a")
    case True
    then have "binary_exponent a = d" by (simp add: binary_exponent_def pq d_def)
    with True up show ?thesis by simp
  next
    case False
    then have "binary_exponent a = d - 1" by (simp add: binary_exponent_def pq d_def)
    with False lo show ?thesis by simp
  qed
qed

lemma round_half_even_near: "\<bar>of_int (round_half_even x) - x\<bar> \<le> 1 / 2"
proof -
  define r where "r = x - of_int \<lfloor>x\<rfloor>"
  have r: "0 \<le> r" "r < 1" unfolding r_def by linarith+
  have x: "x = of_int \<lfloor>x\<rfloor> + r" unfolding r_def by simp
  consider "r < 1 / 2" | "1 / 2 < r" | "r = 1 / 2" by linarith
  then show ?thesis
  proof cases
    case 1
    then have "round_half_even x = \<lfloor>x\<rfloor>"
      by (simp add: round_half_even_def Let_def r_def)
    with 1 r show ?thesis unfolding r_def by simp
  next
    case 2
    then have "round_half_even x = \<lfloor>x\<rfloor> + 1"
      by (simp add: round_half_even_def Let_def r_def)
    with 2 r show ?thesis unfolding r_def by simp
  next
    case 3
    then have "round_half_even x = \<lfloor>x\<rfloor> \<or> round_half_even x = \<lfloor>x\<rfloor> + 1"
      by (simp add: round_half_even_def Let_def r_def)
    with 3 show ?thesis unfolding r_def by auto
  qed
qed

text \<open>A finite result of the rounding is within half a spacing of the exact value.\<close>

lemma binary64_near:
  assumes "x \<noteq> 0" and "binary64 x = Finite y"
  shows "\<bar>y - x\<bar> \<le> pow2 (max (binary_exponent \<bar>x\<bar>) (- 1022) - 52) / 2"
proof -
  define q where "q = pow2 (max (binary_exponent \<bar>x\<bar>) (- 1022) - 52)"
  define n where "n = round_half_even (x / q)"
  have q: "0 < q" unfolding q_def by (rule pow2_pos)
  from assms have y: "y = of_int n * q"
    by (simp add: binary64_def Let_def q_def n_def split: if_splits)
  have "\<bar>of_int n - x / q\<bar> \<le> 1 / 2" unfolding n_def by (rule round_half_even_near)
  then have "\<bar>of_int n - x / q\<bar> * q \<le> 1 / 2 * q"
    using q by (intro mult_right_mono) simp_all
  moreover have "\<bar>of_int n - x / q\<bar> * q = \<bar>of_int n * q - x\<bar>"
  proof -
    have "\<bar>of_int n - x / q\<bar> * q = \<bar>(of_int n - x / q) * q\<bar>"
      using q by (simp add: abs_mult)
    also have "(of_int n - x / q) * q = of_int n * q - x"
      using q by (simp add: left_diff_distrib)
    finally show ?thesis .
  qed
  ultimately show ?thesis unfolding y q_def [symmetric] by simp
qed

text \<open>Values of the rounding: 0.29 and its hundredfold, one tenth, and two ties.\<close>

lemma binary64_examples:
  "binary64 (377 / 1300) = Finite (5224175567749775 / 2 ^ 54)"
  "binary64 (5224175567749775 / 2 ^ 54 * 100) = Finite (8162774324609023 / 2 ^ 48)"
  "binary64 (1 / 10) = Finite (3602879701896397 / 2 ^ 55)"
  "binary64 (2 ^ 53 + 1) = Finite (2 ^ 53)"
  "binary64 (- (2 ^ 53 + 3)) = Finite (- (2 ^ 53 + 4))"
  by code_simp+


lemma js_floor_integer:
  "js_floor x = Finite a \<Longrightarrow> a = of_int \<lfloor>a\<rfloor>"
  by (cases x) (auto simp: js_floor_def)

text \<open>
  The percentage is a whole number, so against a cutoff that is a fraction in \<open>(0, 1]\<close>
  the comparison is true only for a percentage of 0 or less.
\<close>

lemma pastCutoff_fraction:
  assumes "0 < cutoff s" and "cutoff s \<le> 1"
  shows "fst (pastCutoff s) \<longleftrightarrow>
           percentRemaining s = NegInfinity \<or> (\<exists>k \<le> 0. percentRemaining s = Finite (of_int k))"
proof (cases "percentRemaining s")
  case (Finite a)
  then have "js_floor (js_times
       (js_divide (Finite (of_nat (length (Shoe.cards s))))
          (js_times (Finite (of_int (numDecks s))) (Finite 52)))
       (Finite 100)) = Finite a" by (simp add: percentRemaining_def)
  then have a: "a = of_int \<lfloor>a\<rfloor>" by (rule js_floor_integer)
  have "a < cutoff s \<longleftrightarrow> \<lfloor>a\<rfloor> \<le> 0"
  proof
    assume "a < cutoff s"
    with assms(2) have "a < 1" by simp
    then show "\<lfloor>a\<rfloor> \<le> 0" by (simp add: floor_le_iff)
  next
    assume "\<lfloor>a\<rfloor> \<le> 0"
    then have "(of_int \<lfloor>a\<rfloor> :: rat) \<le> 0" by simp
    with a have "a \<le> 0" by simp
    with assms(1) show "a < cutoff s" by simp
  qed
  moreover have "(\<exists>k \<le> 0. a = of_int k) \<longleftrightarrow> \<lfloor>a\<rfloor> \<le> 0"
    using a by (metis floor_of_int)
  ultimately show ?thesis
    using Finite by (simp add: pastCutoff_def Let_def percentRemaining_def js_less_def)
qed (simp_all add: pastCutoff_def Let_def percentRemaining_def js_less_def)




section \<open>Properties of hand evaluation\<close>

lemma adjust_aces_hand: "hand (adjust_aces f) = hand f"
proof (induction f rule: adjust_aces.induct)
  case (1 f)
  show ?case
  proof (cases "score f > 21 \<and> numAces f \<noteq> 0")
    case True
    then have "adjust_aces f = adjust_aces (f\<lparr>score := score f - 10, numAces := numAces f - 1\<rparr>)"
      by (subst adjust_aces.simps) simp
    with True "1.IH" show ?thesis by simp
  next
    case False
    then show ?thesis by (subst adjust_aces.simps) (simp only: if_False)
  qed
qed

lemma adjust_aces_stop: "\<not> (score f > 21 \<and> numAces f \<noteq> 0) \<Longrightarrow> adjust_aces f = f"
  by (subst adjust_aces.simps) (simp only: if_False)

text \<open>
  Hands of built cards: ten and nine; king and queen; three kings; ace and king; two
  aces; ten and six; ten and seven.
\<close>

lemma evalHand_examples:
  "fst (evalHand [built_cards ! 9, built_cards ! 8]) = 19"
  "fst (evalHand [built_cards ! 12, built_cards ! 11]) = 20"
  "fst (isBust [built_cards ! 12, built_cards ! 11]) = False"
  "fst (evalHand [built_cards ! 12, built_cards ! 25, built_cards ! 38]) = 30"
  "fst (isBust [built_cards ! 12, built_cards ! 25, built_cards ! 38]) = True"
  "fst (evalHand [built_cards ! 0, built_cards ! 12]) = 21"
  "fst (evalHand [built_cards ! 0, built_cards ! 13]) = 12"
  "fst (belowHard17 [built_cards ! 9, built_cards ! 5]) = True"
  "fst (belowHard17 [built_cards ! 9, built_cards ! 6]) = False"
  by code_simp+

text \<open>
  Claim C8. On the empty hand the ace count is 0 and \<open>evalHand\<close> returns 0; hence
  \<open>isBust\<close> answers false and \<open>belowHard17\<close> answers true there.
\<close>

theorem evalHand_empty:
  "count_aces [] = 0 \<and> fst (evalHand []) = 0 \<and> \<not> fst (isBust []) \<and> fst (belowHard17 [])"
  by (simp add: count_aces_def raw_score_def evalHand_def isBust_def belowHard17_def
      adjust_aces_stop)

lemma built_cards_values:
  "list_all (\<lambda>c. if rank c = ''ace'' then cvalue c = Arr [1, 10]
                 else (case cvalue c of Num v \<Rightarrow> 2 \<le> v \<and> v \<le> 10 | Arr vs \<Rightarrow> False)) built_cards"
  by code_simp

lemma built_ace:
  assumes "c \<in> set built_cards" "rank c = ''ace''"
  shows "cvalue c = Arr [1, 10]"
  using built_cards_values assms by (auto simp: list_all_iff)

text \<open>
  Claim C1, as amended. For a hand of one ace as built by the deck, the sum of the ace's
  two stored numbers gives the raw score 11, which is not above 21, so the loop does not
  run and \<open>evalHand\<close> returns 11.
\<close>

theorem evalHand_single_ace:
  assumes "c \<in> set built_cards" and "rank c = ''ace''"
  shows "count_aces [c] = 1 \<and> raw_score [c] = 11 \<and> \<not> raw_score [c] > 21 \<and> fst (evalHand [c]) = 11"
proof -
  have v: "cvalue c = Arr [1, 10]" using assms by (rule built_ace)
  have r: "raw_score [c] = 11" by (simp add: raw_score_def v)
  have a: "count_aces [c] = 1" by (simp add: count_aces_def assms)
  show ?thesis using r a by (simp add: evalHand_def adjust_aces_stop)
qed

theorem evalHand_single_ace_witness:
  "built_cards ! 13 \<in> set built_cards \<and> rank (built_cards ! 13) = ''ace'' \<and>
   suit (built_cards ! 13) = ''diamonds'' \<and>
   raw_score [built_cards ! 13] = 11 \<and> fst (evalHand [built_cards ! 13]) = 11"
proof -
  have m: "built_cards ! 13 \<in> set built_cards" by (simp add: length_built_cards)
  have r: "rank (built_cards ! 13) = ''ace''" by code_simp
  have s: "suit (built_cards ! 13) = ''diamonds''" by code_simp
  show ?thesis using evalHand_single_ace [OF m r] m r s by simp
qed

text \<open>On the ace of clubs alone, neither the raw score nor the result is 12.\<close>

theorem evalHand_single_ace_12_counterexample:
  "rank (built_cards ! 0) = ''ace'' \<and> raw_score [built_cards ! 0] \<noteq> 12 \<and>
   fst (evalHand [built_cards ! 0]) \<noteq> 12"
proof -
  have v: "cvalue (built_cards ! 0) = Arr [1, 10]" by code_simp
  have r: "rank (built_cards ! 0) = ''ace''" by code_simp
  have "raw_score [built_cards ! 0] = 11" by (simp add: raw_score_def v)
  moreover have "count_aces [built_cards ! 0] = 1" by (simp add: count_aces_def r)
  ultimately show ?thesis using r by (simp add: evalHand_def adjust_aces_stop)
qed

text \<open>
  Claim C9. After each of \<open>evalHand\<close>, \<open>scoreHand\<close>, \<open>isBust\<close> and \<open>belowHard17\<close> the
  hand is the list of cards it was before the call, every card with the fields it had,
  and \<open>scoreHand\<close> returns what \<open>evalHand\<close> returns.
\<close>

theorem evaluators_pure:
  "snd (evalHand h) = h \<and> snd (scoreHand h) = h \<and> snd (isBust h) = h \<and>
   snd (belowHard17 h) = h \<and> scoreHand h = evalHand h"
  by (simp add: evalHand_def scoreHand_def isBust_def belowHard17_def Let_def adjust_aces_hand
      split: prod.splits)
lemma built_cards_points:
  "list_all (\<lambda>c. if rank c = ''ace'' then cvalue c = Arr [1, 10]
                 else cvalue c = Num (standard_points (rank c))) built_cards"
  by code_simp

lemma built_card_cases:
  assumes "c \<in> set built_cards"
  shows "(rank c = ''ace'' \<and> cvalue c = Arr [1, 10]) \<or>
         (rank c \<noteq> ''ace'' \<and> cvalue c = Num (standard_points (rank c)))"
proof -
  from built_cards_points assms
  have "if rank c = ''ace'' then cvalue c = Arr [1, 10]
        else cvalue c = Num (standard_points (rank c))"
    unfolding list_all_iff by (rule bspec)
  then show ?thesis by (cases "rank c = ''ace''") simp_all
qed

lemma count_aces_foldl:
  "foldl (\<lambda>total c. if rank c = ''ace'' then total + 1 else total) a h =
   a + int (length (filter (\<lambda>c. rank c = ''ace'') h))"
  by (induction h arbitrary: a) simp_all

lemma count_aces_filter: "count_aces h = int (length (filter (\<lambda>c. rank c = ''ace'') h))"
  by (simp add: count_aces_def count_aces_foldl)

lemma count_aces_Cons:
  "count_aces (c # cs) = (if rank c = ''ace'' then 1 else 0) + count_aces cs"
  by (simp add: count_aces_filter)

lemma count_aces_nonneg: "0 \<le> count_aces h"
  by (simp add: count_aces_filter)

lemma raw_score_foldl:
  "set h \<subseteq> set built_cards \<Longrightarrow>
   foldl (\<lambda>total c.
        case cvalue c of
          Arr vs \<Rightarrow> total + foldl (\<lambda>acc curr. acc + curr) 0 vs
        | Num v \<Rightarrow> total + v) a h = a + low_total h + 10 * count_aces h"
proof (induction h arbitrary: a)
  case Nil
  then show ?case by (simp add: count_aces_def)
next
  case (Cons c cs)
  then have c: "c \<in> set built_cards" and cs: "set cs \<subseteq> set built_cards" by simp_all
  from built_card_cases [OF c] show ?case
    by (auto simp: Cons.IH [OF cs] count_aces_Cons)
qed

lemma raw_score_built:
  "set h \<subseteq> set built_cards \<Longrightarrow> raw_score h = low_total h + 10 * count_aces h"
  by (simp add: raw_score_def raw_score_foldl)

lemma hand_totals_iff:
  "t \<in> set (hand_totals h) \<longleftrightarrow> (\<exists>m. 0 \<le> m \<and> m \<le> count_aces h \<and> t = low_total h + 10 * m)"
proof (induction h arbitrary: t)
  case Nil
  then show ?case by (auto simp: count_aces_def)
next
  case (Cons c cs)
  show ?case
  proof (cases "rank c = ''ace''")
    case False
    then show ?thesis by (auto simp: Cons.IH count_aces_Cons image_iff)
  next
    case True
    show ?thesis
    proof
      assume "t \<in> set (hand_totals (c # cs))"
      with True consider u where "u \<in> set (hand_totals cs)" "t = 1 + u"
        | u where "u \<in> set (hand_totals cs)" "t = 11 + u"
        by auto
      then show "\<exists>m. 0 \<le> m \<and> m \<le> count_aces (c # cs) \<and> t = low_total (c # cs) + 10 * m"
      proof cases
        case 1
        then obtain m where "0 \<le> m" "m \<le> count_aces cs" "u = low_total cs + 10 * m"
          using Cons.IH by blast
        with 1 True show ?thesis by (intro exI [of _ m]) (simp add: count_aces_Cons)
      next
        case 2
        then obtain m where "0 \<le> m" "m \<le> count_aces cs" "u = low_total cs + 10 * m"
          using Cons.IH by blast
        with 2 True show ?thesis by (intro exI [of _ "m + 1"]) (simp add: count_aces_Cons)
      qed
    next
      assume "\<exists>m. 0 \<le> m \<and> m \<le> count_aces (c # cs) \<and> t = low_total (c # cs) + 10 * m"
      then obtain m where m: "0 \<le> m" "m \<le> 1 + count_aces cs" "t = 1 + low_total cs + 10 * m"
        using True by (auto simp: count_aces_Cons)
      show "t \<in> set (hand_totals (c # cs))"
      proof (cases "m \<le> count_aces cs")
        case True
        define u where "u = low_total cs + 10 * m"
        have "u \<in> set (hand_totals cs)"
          unfolding u_def using True m(1) Cons.IH by blast
        moreover have "t = 1 + u" using m(3) by (simp add: u_def)
        ultimately have "t \<in> (\<lambda>x. 1 + x) ` set (hand_totals cs)" by blast
        then show ?thesis using \<open>rank c = ''ace''\<close> by simp
      next
        case False
        with m have m1: "0 \<le> m - 1" "m - 1 \<le> count_aces cs"
          using count_aces_nonneg [of cs] by linarith+
        define u where "u = low_total cs + 10 * (m - 1)"
        have "u \<in> set (hand_totals cs)"
          unfolding u_def using m1 Cons.IH by blast
        moreover have "t = 11 + u" using m(3) by (simp add: u_def)
        ultimately have "t \<in> (\<lambda>x. 11 + x) ` set (hand_totals cs)" by blast
        then show ?thesis using \<open>rank c = ''ace''\<close> by simp
      qed
    qed
  qed
qed

lemma adjust_aces_score:
  "0 \<le> numAces f \<Longrightarrow>
   \<exists>m. 0 \<le> m \<and> m \<le> numAces f \<and> score (adjust_aces f) = score f - 10 * m \<and>
       (score (adjust_aces f) \<le> 21 \<or> m = numAces f) \<and>
       (m = 0 \<or> 21 < score (adjust_aces f) + 10)"
proof (induction f rule: adjust_aces.induct)
  case (1 f)
  show ?case
  proof (cases "score f > 21 \<and> numAces f \<noteq> 0")
    case False
    then have "adjust_aces f = f" by (rule adjust_aces_stop)
    with False "1.prems" show ?thesis by (intro exI [of _ 0]) auto
  next
    case True
    let ?g = "f\<lparr>score := score f - 10, numAces := numAces f - 1\<rparr>"
    have e: "adjust_aces f = adjust_aces ?g"
      using True by (subst adjust_aces.simps) simp
    from True "1.prems" have "0 \<le> numAces ?g" by simp
    from "1.IH" [OF True this] obtain m where m: "0 \<le> m" "m \<le> numAces ?g"
      "score (adjust_aces ?g) = score ?g - 10 * m"
      "score (adjust_aces ?g) \<le> 21 \<or> m = numAces ?g"
      "m = 0 \<or> 21 < score (adjust_aces ?g) + 10"
      by blast
    have "21 < score (adjust_aces f) + 10"
    proof (cases "m = 0")
      case True
      with m(3) e \<open>score f > 21 \<and> numAces f \<noteq> 0\<close> show ?thesis by simp
    next
      case False
      with m(5) e show ?thesis by simp
    qed
    with m e show ?thesis by (intro exI [of _ "m + 1"]) auto
  qed
qed

text \<open>
  Claim C10. On every hand of built cards, \<open>evalHand\<close> returns the blackjack value of
  the hand: the largest total not above 21 that counting each ace as 1 or 11 can give, or
  the smallest total when all of them are above 21. (The built ace stores \<open>[1, 10]\<close>, which
  sums to 11.)
\<close>

theorem evalHand_blackjack:
  assumes "set h \<subseteq> set built_cards"
  shows "fst (evalHand h) = blackjack_value h"
proof -
  define a where "a = count_aces h"
  define b where "b = low_total h"
  define f where "f = \<lparr>hand = h, numAces = a, score = raw_score h\<rparr>"
  define r where "r = score (adjust_aces f)"
  have a0: "0 \<le> a" unfolding a_def by (rule count_aces_nonneg)
  have s: "score f = b + 10 * a"
    unfolding f_def a_def b_def using assms by (simp add: raw_score_built)
  have ev: "fst (evalHand h) = r"
    by (simp add: evalHand_def Let_def r_def f_def a_def)
  have tot: "\<And>t. t \<in> set (hand_totals h) \<longleftrightarrow> (\<exists>m. 0 \<le> m \<and> m \<le> a \<and> t = b + 10 * m)"
    unfolding a_def b_def by (rule hand_totals_iff)
  have "0 \<le> numAces f" using a0 by (simp add: f_def)
  from adjust_aces_score [OF this] obtain m where m: "0 \<le> m" "m \<le> a"
    "r = b + 10 * a - 10 * m" "r \<le> 21 \<or> m = a" "m = 0 \<or> 21 < r + 10"
    unfolding r_def [symmetric] s by (auto simp: f_def)
  have rin: "r \<in> set (hand_totals h)"
    unfolding tot using m by (intro exI [of _ "a - m"]) simp
  show ?thesis
  proof (cases "r \<le> 21")
    case True
    let ?ok = "filter (\<lambda>t. t \<le> 21) (hand_totals h)"
    from rin True have rok: "r \<in> set ?ok" by simp
    have ne: "?ok \<noteq> []"
    proof
      assume e: "?ok = []"
      from rok show False unfolding e by simp
    qed
    have "Max (set ?ok) = r"
    proof (rule Max_eqI)
      show "finite (set ?ok)" by simp
      show "r \<in> set ?ok" by (rule rok)
      fix t assume "t \<in> set ?ok"
      then have t21: "t \<le> 21" and "t \<in> set (hand_totals h)" by simp_all
      then obtain j where j: "0 \<le> j" "j \<le> a" "t = b + 10 * j" unfolding tot by blast
      from m(5) show "t \<le> r"
      proof
        assume "m = 0"
        with m(3) j show ?thesis by simp
      next
        assume "21 < r + 10"
        with t21 m(3) j(3) have "10 * j < 10 * a - 10 * m + 10" by linarith
        then have "j \<le> a - m" by linarith
        with m(3) j(3) show ?thesis by linarith
      qed
    qed
    with ne ev show ?thesis by (simp add: blackjack_value_def Let_def)
  next
    case False
    with m(4) have ma: "m = a" by simp
    with m(3) have rb: "r = b" by simp
    have all: "\<And>t. t \<in> set (hand_totals h) \<Longrightarrow> r \<le> t"
      unfolding tot rb by auto
    have "filter (\<lambda>t. t \<le> 21) (hand_totals h) = []"
      unfolding filter_empty_conv
    proof
      fix t assume "t \<in> set (hand_totals h)"
      then have "r \<le> t" by (rule all)
      with False show "\<not> t \<le> 21" by linarith
    qed
    moreover have "Min (set (hand_totals h)) = r"
      by (rule Min_eqI) (simp_all add: rin all)
    ultimately show ?thesis using ev by (simp add: blackjack_value_def Let_def)
  qed
qed

theorem evalHand_blackjack_witness:
  "set [built_cards ! 0, built_cards ! 12] \<subseteq> set built_cards \<and>
   rank (built_cards ! 0) = ''ace'' \<and> rank (built_cards ! 12) = ''king'' \<and>
   fst (evalHand [built_cards ! 0, built_cards ! 12]) = 21"
proof -
  have m: "set [built_cards ! 0, built_cards ! 12] \<subseteq> set built_cards"
    by (simp add: length_built_cards)
  have r0: "rank (built_cards ! 0) = ''ace''" by code_simp
  have r12: "rank (built_cards ! 12) = ''king''" by code_simp
  have "blackjack_value [built_cards ! 0, built_cards ! 12] = 21" by code_simp
  with evalHand_blackjack [OF m] m r0 r12 show ?thesis by simp
qed


section \<open>Properties of dealing\<close>

lemma deal_loop_take_drop:
  "n \<le> length (Shoe.cards s) \<Longrightarrow>
   deal_loop n acc s =
     (acc @ map Some (take n (Shoe.cards s)), s\<lparr>Shoe.cards := drop n (Shoe.cards s)\<rparr>)"
proof (induction n arbitrary: acc s)
  case 0
  then show ?case by simp
next
  case (Suc n)
  then obtain c rest where cs: "Shoe.cards s = c # rest"
    by (cases "Shoe.cards s") auto
  with Suc.prems have "n \<le> length (Shoe.cards (s\<lparr>Shoe.cards := rest\<rparr>))" by simp
  from Suc.IH [OF this] cs show ?case by (simp add: shift_def)
qed

text \<open>
  Claim C3. When the shoe holds fewer than \<open>num\<close> cards, \<open>deal\<close> throws the error
  ``Not enough cards to deal!'' and leaves the shoe as it was; \<open>deal\<close> returns a result
  exactly when the shoe holds at least \<open>num\<close> cards, it throws no other error, and a call
  without argument deals one card.
\<close>

theorem deal_insufficient:
  "(int (length (Shoe.cards s)) < num \<longrightarrow>
      deal (Some num) s = (Inl (Error ''Not enough cards to deal!''), s)) \<and>
   ((\<exists>r. fst (deal (Some num) s) = Inr r) \<longleftrightarrow> num \<le> int (length (Shoe.cards s))) \<and>
   (\<forall>e. fst (deal (Some num) s) = Inl e \<longrightarrow> e = Error ''Not enough cards to deal!'') \<and>
   deal None s = deal (Some 1) s"
proof -
  have a: "int (length (Shoe.cards s)) < num \<Longrightarrow>
      deal (Some num) s = (Inl (Error ''Not enough cards to deal!''), s)"
    by (simp add: deal_def)
  have b: "\<not> int (length (Shoe.cards s)) < num \<Longrightarrow> \<exists>r. fst (deal (Some num) s) = Inr r"
    by (simp add: deal_def split: prod.splits)
  have c: "deal None s = deal (Some 1) s"
    by (simp add: deal_def)
  show ?thesis
  proof (cases "int (length (Shoe.cards s)) < num")
    case True
    with a [OF True] c show ?thesis by simp
  next
    case False
    from b [OF False] obtain r where "fst (deal (Some num) s) = Inr r" ..
    with False c show ?thesis by (simp add: not_less)
  qed
qed


theorem deal_insufficient_witness:
  "int (length (Shoe.cards (new_Shoe 1 None))) < 3 \<and>
   deal (Some 3) (new_Shoe 1 None) = (Inl (Error ''Not enough cards to deal!''), new_Shoe 1 None)"
proof -
  have h: "int (length (Shoe.cards (new_Shoe 1 None))) < 3"
    by (simp add: new_Shoe_def)
  from deal_insufficient [of "new_Shoe 1 None" 3]
  have "int (length (Shoe.cards (new_Shoe 1 None))) < 3 \<longrightarrow>
      deal (Some 3) (new_Shoe 1 None) =
        (Inl (Error ''Not enough cards to deal!''), new_Shoe 1 None)"
    by (rule conjunct1)
  with h show ?thesis by blast
qed

text \<open>
  Claim C4. On a shoe of at least \<open>num\<close> cards, \<open>deal(1)\<close> returns the front card itself
  and leaves the other cards, one fewer; for \<open>num > 1\<close>, \<open>deal(num)\<close> returns the first
  \<open>num\<close> cards in shoe order as an array of exactly \<open>num\<close> cards, and leaves the
  remaining cards in their order.
\<close>

theorem deal_front:
  "(1 \<le> length (Shoe.cards s) \<longrightarrow>
      deal (Some 1) s = (Inr (Single (Some (hd (Shoe.cards s)))), s\<lparr>Shoe.cards := tl (Shoe.cards s)\<rparr>) \<and>
      length (Shoe.cards (snd (deal (Some 1) s))) = length (Shoe.cards s) - 1) \<and>
   (1 < num \<and> num \<le> int (length (Shoe.cards s)) \<longrightarrow>
      deal (Some num) s =
        (Inr (Several (map Some (take (nat num) (Shoe.cards s)))),
         s\<lparr>Shoe.cards := drop (nat num) (Shoe.cards s)\<rparr>) \<and>
      length (take (nat num) (Shoe.cards s)) = nat num)"
proof (intro conjI impI)
  assume "1 \<le> length (Shoe.cards s)"
  then obtain c rest where cs: "Shoe.cards s = c # rest"
    by (cases "Shoe.cards s") auto
  then show "deal (Some 1) s =
      (Inr (Single (Some (hd (Shoe.cards s)))), s\<lparr>Shoe.cards := tl (Shoe.cards s)\<rparr>)"
    by (simp add: deal_def shift_def)
  then show "length (Shoe.cards (snd (deal (Some 1) s))) = length (Shoe.cards s) - 1"
    by simp
next
  assume n: "1 < num \<and> num \<le> int (length (Shoe.cards s))"
  then have le: "nat num \<le> length (Shoe.cards s)" by linarith
  from n have "\<not> int (length (Shoe.cards s)) < num" and "num \<noteq> 1" by auto
  then show "deal (Some num) s =
      (Inr (Several (map Some (take (nat num) (Shoe.cards s)))),
       s\<lparr>Shoe.cards := drop (nat num) (Shoe.cards s)\<rparr>)"
    by (simp add: deal_def deal_loop_take_drop [OF le])
  from le show "length (take (nat num) (Shoe.cards s)) = nat num" by simp
qed

theorem deal_front_witness:
  "1 \<le> length (Shoe.cards (new_Shoe 1 None\<lparr>Shoe.cards := built_cards\<rparr>)) \<and>
   deal (Some 1) (new_Shoe 1 None\<lparr>Shoe.cards := built_cards\<rparr>) =
     (Inr (Single (Some (hd built_cards))), new_Shoe 1 None\<lparr>Shoe.cards := tl built_cards\<rparr>) \<and>
   (1::int) < 5 \<and> 5 \<le> int (length (Shoe.cards (new_Shoe 1 None\<lparr>Shoe.cards := built_cards\<rparr>))) \<and>
   deal (Some 5) (new_Shoe 1 None\<lparr>Shoe.cards := built_cards\<rparr>) =
     (Inr (Several (map Some (take 5 built_cards))),
      new_Shoe 1 None\<lparr>Shoe.cards := drop 5 built_cards\<rparr>)"
proof -
  let ?s = "new_Shoe 1 None\<lparr>Shoe.cards := built_cards\<rparr>"
  have cs: "Shoe.cards ?s = built_cards" by simp
  have h1: "1 \<le> length (Shoe.cards ?s)" by (simp add: length_built_cards)
  have h5: "(1::int) < 5 \<and> 5 \<le> int (length (Shoe.cards ?s))" by (simp add: length_built_cards)
  note d = deal_front [of ?s 5]
  from d h1 have a: "deal (Some 1) ?s =
      (Inr (Single (Some (hd (Shoe.cards ?s)))), ?s\<lparr>Shoe.cards := tl (Shoe.cards ?s)\<rparr>)"
    by blast
  from d h5 have b: "deal (Some 5) ?s =
      (Inr (Several (map Some (take (nat 5) (Shoe.cards ?s)))),
       ?s\<lparr>Shoe.cards := drop (nat 5) (Shoe.cards ?s)\<rparr>)"
    by blast
  have a': "deal (Some 1) ?s =
      (Inr (Single (Some (hd built_cards))), new_Shoe 1 None\<lparr>Shoe.cards := tl built_cards\<rparr>)"
    by (subst a) simp
  have b': "deal (Some 5) ?s =
      (Inr (Several (map Some (take 5 built_cards))),
       new_Shoe 1 None\<lparr>Shoe.cards := drop 5 built_cards\<rparr>)"
    by (subst b) simp
  from h1 h5 a' b' show ?thesis by blast
qed

end
